theory Spec2Isabelle
  imports Complex_Main "HOL-Library.Word"
begin

unbundle bit_operations_syntax

section \<open>The DS1631 driver and its environment\<close>

text \<open>
  \<^verbatim>\<open>DS1631.cpp\<close> drives a DS1631 temperature sensor over the two-wire bus. The
  driver keeps three variables (\<^verbatim>\<open>_address\<close>, \<^verbatim>\<open>MSByte\<close>, \<^verbatim>\<open>LSByte\<close>) and
  talks to two collaborators that are not part of the repository: Arduino's
  \<^verbatim>\<open>Wire\<close> object and the \<^verbatim>\<open>millis()\<close> clock. Both are modelled as explicit
  state: what the driver sends is appended to a trace, what the device and
  the clock will answer is a script carried in the state.
\<close>

subsection \<open>State\<close>

type_synonym byte = "8 word"

text \<open>
  One entry of the trace: a committed transmission (address and payload), a
  request for bytes (address, number asked, bytes received) or a clock
  sample (the value \<^verbatim>\<open>millis()\<close> returned).
\<close>

datatype event =
    Tx int "byte list"
  | Rq int nat "byte list"
  | Sample "32 word"

text \<open>
  \<^item> \<open>address\<close>, \<open>MSByte\<close>, \<open>LSByte\<close>: the three variables of the source.
  \<^item> \<open>txaddr\<close>, \<open>txbuf\<close>, \<open>rxbuf\<close>: the transmit target, the transmit queue
    and the receive buffer of \<^verbatim>\<open>Wire\<close>.
  \<^item> \<open>replies\<close>: the bytes the device hands over at each successive
    \<^verbatim>\<open>requestFrom\<close>; once the script is used up the device stays silent.
  \<^item> \<open>stale\<close>: the content of the uninitialised local \<^verbatim>\<open>_data\<close> of
    \<^verbatim>\<open>readConfig\<close>, returned when the device did not answer.
  \<^item> \<open>clock\<close>: the values the successive calls of \<^verbatim>\<open>millis()\<close> return. The
    script is finite; a run that asks for more samples than it holds has not
    returned within the modelled horizon (\<open>None\<close>).
  \<^item> \<open>trace\<close>: everything that happened, oldest first.
\<close>

record world =
  address :: int
  MSByte :: byte
  LSByte :: byte
  txaddr :: int
  txbuf :: "byte list"
  rxbuf :: "byte list"
  replies :: "byte list list"
  stale :: byte
  clock :: "32 word list"
  trace :: "event list"

subsection \<open>The bus and the clock\<close>

definition Wire_beginTransmission :: "int \<Rightarrow> world \<Rightarrow> world" where
  "Wire_beginTransmission a w = w\<lparr>txaddr := a, txbuf := []\<rparr>"

definition Wire_write :: "byte \<Rightarrow> world \<Rightarrow> world" where
  "Wire_write b w = w\<lparr>txbuf := txbuf w @ [b]\<rparr>"

definition Wire_endTransmission :: "world \<Rightarrow> world" where
  "Wire_endTransmission w =
     w\<lparr>txbuf := [], trace := trace w @ [Tx (txaddr w) (txbuf w)]\<rparr>"

definition Wire_requestFrom :: "int \<Rightarrow> nat \<Rightarrow> world \<Rightarrow> world" where
  "Wire_requestFrom a n w =
     (case replies w of
        [] \<Rightarrow> w\<lparr>rxbuf := [], trace := trace w @ [Rq a n []]\<rparr>
      | r # rs \<Rightarrow>
          w\<lparr>rxbuf := take n r, replies := rs,
            trace := trace w @ [Rq a n (take n r)]\<rparr>)"

definition Wire_available :: "world \<Rightarrow> nat" where
  "Wire_available w = length (rxbuf w)"

text \<open>\<^verbatim>\<open>Wire.read()\<close> returns an \<^verbatim>\<open>int\<close>: the next byte, or \<open>-1\<close> on an empty buffer.\<close>

definition Wire_read :: "world \<Rightarrow> int \<times> world" where
  "Wire_read w =
     (case rxbuf w of
        [] \<Rightarrow> (- 1, w)
      | b # bs \<Rightarrow> (uint b, w\<lparr>rxbuf := bs\<rparr>))"

definition millis :: "world \<Rightarrow> (32 word \<times> world) option" where
  "millis w =
     (case clock w of
        [] \<Rightarrow> None
      | t # ts \<Rightarrow> Some (t, w\<lparr>clock := ts, trace := trace w @ [Sample t]\<rparr>))"

subsection \<open>Register and command interface\<close>

definition DS1631 :: "int \<Rightarrow> world \<Rightarrow> world" where
  "DS1631 Addr w = w\<lparr>address := Addr + 72\<rparr>"

text \<open>
  A freshly started sketch that has constructed the driver with \<^verbatim>\<open>DS1631(Addr)\<close>:
  globals zeroed, nothing sent yet, the device and the clock scripted by \<open>rs\<close>
  and \<open>ts\<close>.
\<close>

definition boot :: "int \<Rightarrow> byte list list \<Rightarrow> 32 word list \<Rightarrow> world" where
  "boot Addr rs ts =
     DS1631 Addr
       \<lparr>address = 0, MSByte = 0, LSByte = 0, txaddr = 0, txbuf = [], rxbuf = [],
        replies = rs, stale = 0, clock = ts, trace = []\<rparr>"

definition stopConversion :: "world \<Rightarrow> world" where
  "stopConversion w =
     (let w1 = Wire_beginTransmission (address w) w;
          w2 = Wire_write 0x22 w1
      in Wire_endTransmission w2)"

definition startConversion :: "world \<Rightarrow> world" where
  "startConversion w =
     (let w1 = Wire_beginTransmission (address w) w;
          w2 = Wire_write 0x51 w1
      in Wire_endTransmission w2)"

definition writeConfig :: "byte \<Rightarrow> world \<Rightarrow> world" where
  "writeConfig data w =
     (let w1 = stopConversion w;
          w2 = Wire_beginTransmission (address w1) w1;
          w3 = Wire_write 0xAC w2;
          w4 = Wire_write data w3;
          w5 = Wire_endTransmission w4
      in startConversion w5)"

definition readConfig :: "world \<Rightarrow> byte \<times> world" where
  "readConfig w =
     (let w1 = Wire_beginTransmission (address w) w;
          w2 = Wire_write 0xAC w1;
          w3 = Wire_endTransmission w2;
          w4 = Wire_requestFrom (address w3) 1 w3
      in if Wire_available w4 \<noteq> 0
         then (let (r, w5) = Wire_read w4 in (word_of_int r, w5))
         else (stale w4, w4))"

definition setActiveHigh :: "bool \<Rightarrow> world \<Rightarrow> world" where
  "setActiveHigh b w =
     (let (config, w1) = readConfig w
      in if b then writeConfig (config OR push_bit 1 1) w1
         else writeConfig (config AND NOT (push_bit 1 1)) w1)"

definition setOneShotMode :: "bool \<Rightarrow> world \<Rightarrow> world" where
  "setOneShotMode b w =
     (let (config, w1) = readConfig w
      in if b then writeConfig (config OR push_bit 0 1) w1
         else writeConfig (config AND NOT (push_bit 0 1)) w1)"

definition setResolution :: "byte \<Rightarrow> world \<Rightarrow> world" where
  "setResolution res w =
     (if 9 \<le> res \<and> res \<le> 12
      then (let (config, w1) = readConfig w;
                res' = res - 9
            in writeConfig (config OR push_bit 2 res') w1)
      else w)"

definition readTemperature :: "byte \<Rightarrow> world \<Rightarrow> world" where
  "readTemperature command w =
     (let w1 = Wire_beginTransmission (address w) w;
          w2 = Wire_write command w1;
          w3 = Wire_endTransmission w2;
          w4 = Wire_requestFrom (address w3) 2 w3;
          (m, w5) = Wire_read w4;
          w6 = w5\<lparr>MSByte := word_of_int m\<rparr>;
          (l, w7) = Wire_read w6
      in w7\<lparr>LSByte := word_of_int l\<rparr>)"

definition readT :: "world \<Rightarrow> world" where
  "readT w = readTemperature 0xAA w"

definition conversionDone :: "world \<Rightarrow> bool \<times> world" where
  "conversionDone w =
     (let (data, w1) = readConfig w
      in if data OR 127 = 255 then (True, w1) else (False, w1))"

subsection \<open>Fixed-point decoding to an integer\<close>

text \<open>
  \<^verbatim>\<open>int32_t T\<close> is a 32-bit word read as two's complement; \<^verbatim>\<open>>>\<close> on it is the
  arithmetic shift of the compilers that target the boards.
\<close>

definition readTempD :: "world \<Rightarrow> 32 word \<times> world" where
  "readTempD w =
     (let w1 = readT w;
          T = push_bit 8 (ucast (MSByte w1)) + ucast (LSByte w1);
          T = (if 0x8000 \<le>s T then T - 0xFFFF else T);
          T = signed_drop_bit 4 T
      in (T, w1))"

subsection \<open>Floating-point codec\<close>

text \<open>
  A \<^verbatim>\<open>float\<close> or \<^verbatim>\<open>double\<close> value is a rational number, and the codec is
  modelled on the rationals. The model is exact, not an idealisation:
  \<^item> in \<^verbatim>\<open>byteToFloat\<close> every intermediate value is a multiple of \<open>1/16\<close> of
    magnitude at most 256, which binary32 holds without rounding (lemma
    \<open>decoder_steps_binary32\<close> below);
  \<^item> in \<^verbatim>\<open>floatToByte\<close> the difference \<^verbatim>\<open>f - int(f)\<close> is the fractional part of
    \<^verbatim>\<open>f\<close>, which has no more significant bits than \<^verbatim>\<open>f\<close> itself, and the division
    by \<^verbatim>\<open>0.0625\<close> only changes the exponent (lemma \<open>encoder_steps_binary32\<close>).
  Not-a-number and the infinities are not rationals: on them \<^verbatim>\<open>int(f)\<close> is
  undefined, and the model leaves them out.

  \<^verbatim>\<open>int(f)\<close> truncates towards zero and is undefined when the truncated value
  does not fit \<^verbatim>\<open>int\<close>. On the AVR boards \<^verbatim>\<open>int\<close> has 16 bits; boards with a
  wider \<^verbatim>\<open>int\<close> behave the same inside this range.
\<close>

definition trunc :: "rat \<Rightarrow> int" where
  "trunc f = (if 0 \<le> f then \<lfloor>f\<rfloor> else \<lceil>f\<rceil>)"

definition INT_MIN :: int where
  "INT_MIN = - 32768"

definition INT_MAX :: int where
  "INT_MAX = 32767"

definition byteToFloat :: "world \<Rightarrow> rat \<times> world" where
  "byteToFloat w =
     (let w1 = w\<lparr>LSByte := drop_bit 4 (LSByte w)\<rparr>
      in if 0x80 \<le> MSByte w1
         then (let negMSByte = of_int (uint (MSByte w1) - 256);
                   T = negMSByte + of_int (uint (LSByte w1)) * 0.0625
               in (T, w1))
         else (let T = of_int (uint (MSByte w1)) + of_int (uint (LSByte w1)) * 0.0625
               in (T, w1)))"

definition floatToByte :: "rat \<Rightarrow> world \<Rightarrow> world option" where
  "floatToByte f w =
     (if INT_MIN \<le> trunc f \<and> trunc f \<le> INT_MAX
      then (let w1 = w\<lparr>MSByte := word_of_int (trunc f)\<rparr>;
                w2 = w1\<lparr>LSByte := word_of_int (trunc ((f - of_int (trunc f)) / 0.0625))\<rparr>
            in Some (w2\<lparr>LSByte := push_bit 4 (LSByte w2)\<rparr>))
      else None)"

definition readTempF :: "world \<Rightarrow> rat \<times> world" where
  "readTempF w = byteToFloat (readT w)"

definition readTH :: "world \<Rightarrow> rat \<times> world" where
  "readTH w = byteToFloat (readTemperature 0xA1 w)"

definition readTL :: "world \<Rightarrow> rat \<times> world" where
  "readTL w = byteToFloat (readTemperature 0xA2 w)"

definition writeTemperature :: "rat \<Rightarrow> byte \<Rightarrow> world \<Rightarrow> world option" where
  "writeTemperature f command w =
     (case floatToByte f w of
        None \<Rightarrow> None
      | Some w1 \<Rightarrow>
          (let w2 = stopConversion w1;
               w3 = Wire_beginTransmission (address w2) w2;
               w4 = Wire_write command w3;
               w5 = Wire_write (MSByte w4) w4;
               w6 = Wire_write (LSByte w5) w5;
               w7 = Wire_endTransmission w6
           in Some (startConversion w7)))"

definition writeTH :: "rat \<Rightarrow> world \<Rightarrow> world option" where
  "writeTH f w = writeTemperature f 0xA1 w"

definition writeTL :: "rat \<Rightarrow> world \<Rightarrow> world option" where
  "writeTL f w = writeTemperature f 0xA2 w"

subsection \<open>One-shot polling\<close>

text \<open>
  The inner loop \<^verbatim>\<open>while (elapsed < 50) { elapsed = millis() - lastMillis; }\<close>.
  \<^verbatim>\<open>elapsed\<close> and \<^verbatim>\<open>lastMillis\<close> are \<^verbatim>\<open>long\<close>, \<^verbatim>\<open>millis()\<close> is
  \<^verbatim>\<open>unsigned long\<close>: the subtraction wraps at \<open>2 ^ 32\<close> and the comparisons are
  signed.
\<close>

function spin :: "32 word \<Rightarrow> 32 word \<Rightarrow> world \<Rightarrow> (32 word \<times> world) option" where
  "spin lastMillis elapsed w =
     (if elapsed <s 50
      then (case millis w of
              None \<Rightarrow> None
            | Some (t, w1) \<Rightarrow> spin lastMillis (t - lastMillis) w1)
      else Some (elapsed, w))"
  by pat_completeness auto
termination
  by (relation "measure (\<lambda>(l, e, w). length (clock w))")
     (auto simp: millis_def split: list.splits)

declare spin.simps [simp del]

text \<open>
  The polling loop \<^verbatim>\<open>while ( !conversionDone() ) { ... }\<close>, which
  \<^verbatim>\<open>readTempOneShot\<close> and \<^verbatim>\<open>readTempOneShotInt\<close> contain in the same words. It is
  left either because the conversion is done or through the \<^verbatim>\<open>return\<close> of the
  time-out branch.
\<close>

datatype poll = Done | TimedOut

function pollLoop :: "32 word \<Rightarrow> world \<Rightarrow> (poll \<times> world) option" where
  "pollLoop lastMillis w =
     (let (done, w1) = conversionDone w
      in if \<not> done
         then (case spin lastMillis 0 w1 of
                 None \<Rightarrow> None
               | Some (elapsed, w2) \<Rightarrow>
                   if 1000 <s elapsed then Some (TimedOut, w2)
                   else pollLoop lastMillis w2)
         else Some (Done, w1))"
  by pat_completeness auto
termination
proof -
  have done_clock: "clock w1 = clock w" if "(b, w1) = conversionDone w" for b w1 w
    using that
    by (auto simp: conversionDone_def readConfig_def Wire_beginTransmission_def
        Wire_write_def Wire_endTransmission_def Wire_requestFrom_def Wire_available_def
        Wire_read_def Let_def split: prod.splits if_splits list.splits)
  have spin_le: "length (clock w') \<le> length (clock w)"
    if "spin l e w = Some (e', w')" for l e w e' w'
    using that
  proof (induction l e w rule: spin.induct)
    case (1 l e w)
    show ?case
    proof (cases "e <s 50")
      case False
      with "1.prems" show ?thesis by (simp add: spin.simps)
    next
      case True
      with "1.prems" obtain t w1 where m: "millis w = Some (t, w1)"
        and s: "spin l (t - l) w1 = Some (e', w')"
        by (auto simp: spin.simps [of l e w] split: option.splits)
      from m have "length (clock w1) < length (clock w)"
        by (auto simp: millis_def split: list.splits)
      moreover from "1.IH" [OF True m refl s] have "length (clock w') \<le> length (clock w1)" .
      ultimately show ?thesis by simp
    qed
  qed
  have spin_less: "length (clock w') < length (clock w)"
    if "spin l 0 w = Some (e', w')" for l w e' w'
  proof -
    have "(0 :: 32 word) <s 50" by (simp add: word_sless_alt)
    with that obtain t w1 where m: "millis w = Some (t, w1)"
      and s: "spin l (t - l) w1 = Some (e', w')"
      by (auto simp: spin.simps [of l 0 w] split: option.splits)
    from m have "length (clock w1) < length (clock w)"
      by (auto simp: millis_def split: list.splits)
    with spin_le [OF s] show ?thesis by simp
  qed
  show ?thesis
    by (relation "measure (\<lambda>(l, w). length (clock w))")
       (auto dest!: spin_less done_clock)
qed

declare pollLoop.simps [simp del]

definition readTempOneShot :: "world \<Rightarrow> (rat \<times> world) option" where
  "readTempOneShot w =
     (case millis w of
        None \<Rightarrow> None
      | Some (lastMillis, w1) \<Rightarrow>
          (let w2 = startConversion w1
           in case pollLoop lastMillis w2 of
                None \<Rightarrow> None
              | Some (TimedOut, w3) \<Rightarrow> Some (- 32768, w3)
              | Some (Done, w3) \<Rightarrow>
                  (let (T, w4) = readTempF w3;
                       w5 = stopConversion w4
                   in Some (T, w5))))"

text \<open>
  Arduino's \<^verbatim>\<open>word(h, l)\<close> builds a 16-bit value from a high and a low byte.
  \<^verbatim>\<open>return -32768\<close> in a function returning \<^verbatim>\<open>uint16_t\<close> converts the \<^verbatim>\<open>int\<close>
  to 16 bits.
\<close>

definition word :: "byte \<Rightarrow> byte \<Rightarrow> 16 word" where
  "word h l = push_bit 8 (ucast h) OR ucast l"

definition readTempOneShotInt :: "world \<Rightarrow> (16 word \<times> world) option" where
  "readTempOneShotInt w =
     (case millis w of
        None \<Rightarrow> None
      | Some (lastMillis, w1) \<Rightarrow>
          (let w2 = startConversion w1
           in case pollLoop lastMillis w2 of
                None \<Rightarrow> None
              | Some (TimedOut, w3) \<Rightarrow> Some (word_of_int (- 32768), w3)
              | Some (Done, w3) \<Rightarrow>
                  (let w4 = readT w3;
                       T = word (MSByte w4) (LSByte w4)
                   in Some (T, w4))))"

subsection \<open>Notions used in the statements\<close>

text \<open>The whole-number part that \<^verbatim>\<open>byteToFloat\<close> reads out of \<^verbatim>\<open>MSByte\<close>.\<close>

definition whole :: "byte \<Rightarrow> int" where
  "whole m = (if 128 \<le> uint m then uint m - 256 else uint m)"

text \<open>
  A configuration read answered with the reply \<open>r\<close> does not report a finished
  conversion: bit 7 of the byte \<^verbatim>\<open>readConfig\<close> returns is clear (\<open>st\<close> is the
  stale byte returned when the reply is empty).
\<close>

definition quiet :: "byte \<Rightarrow> byte list \<Rightarrow> bool" where
  "quiet st r = (\<not> bit (case r of [] \<Rightarrow> st | c # _ \<Rightarrow> c) 7)"

text \<open>No configuration read of the run will ever report a finished conversion.\<close>

definition never_done :: "world \<Rightarrow> bool" where
  "never_done w = (\<not> bit (stale w) 7 \<and> list_all (quiet (stale w)) (replies w))"

text \<open>
  The clock sample \<open>t\<close> ends the wait of a poll started at \<open>t0\<close>: the elapsed
  time the code computes from it is not below 50.
\<close>

definition due :: "32 word \<Rightarrow> 32 word \<Rightarrow> bool" where
  "due t0 t = (\<not> t - t0 <s 50)"

text \<open>
  The finite values of a binary32 \<^verbatim>\<open>float\<close>: a significand below \<open>2 ^ 24\<close> in
  magnitude, scaled by a power of two between \<open>2 ^ -149\<close> and \<open>2 ^ 104\<close>.
\<close>

definition binary32 :: "rat \<Rightarrow> bool" where
  "binary32 x =
     (\<exists>(m :: int) (c :: nat). \<bar>m\<bar> < 2 ^ 24
        \<and> (x = of_int m * 2 ^ c \<and> c \<le> 104 \<or> x = of_int m / 2 ^ c \<and> c \<le> 149))"

section \<open>Properties\<close>

subsection \<open>The bus primitives on a scripted device\<close>

lemmas wire_defs = Wire_beginTransmission_def Wire_write_def Wire_endTransmission_def
  Wire_requestFrom_def Wire_available_def Wire_read_def

lemma fst_readConfig:
  "fst (readConfig w) = (case replies w of (c # bs) # rs \<Rightarrow> c | _ \<Rightarrow> stale w)"
  by (simp add: readConfig_def wire_defs Let_def split: list.splits)

lemma replies_readConfig: "replies (snd (readConfig w)) = tl (replies w)"
  by (simp add: readConfig_def wire_defs Let_def split: list.splits)

lemma stale_readConfig: "stale (snd (readConfig w)) = stale w"
  by (simp add: readConfig_def wire_defs Let_def split: list.splits)

lemma readT_bytes:
  "replies w = (m # l # bs) # rs \<Longrightarrow> MSByte (readT w) = m \<and> LSByte (readT w) = l"
  by (simp add: readT_def readTemperature_def wire_defs Let_def)

subsection \<open>The conversion-done flag\<close>

lemma or_127_iff_bit_7: "((c :: byte) OR 127 = 255) = bit c 7"
proof -
  have m7: "(127 :: byte) = mask 7" by (simp add: mask_eq_exp_minus_1)
  have m8: "(255 :: byte) = - 1" by simp
  have "(c OR mask 7 = - 1) = bit c 7"
  proof
    assume "c OR mask 7 = - 1"
    then have "bit (c OR mask 7) 7" by simp
    then show "bit c 7" by (simp add: bit_simps)
  next
    assume b: "bit c 7"
    show "c OR mask 7 = - 1"
    proof (rule bit_eqI)
      fix n assume "possible_bit TYPE(byte) n"
      then have "n < 8" by (simp add: possible_bit_def)
      then have "n < 7 \<or> n = 7" by arith
      with b show "bit (c OR mask 7) n = bit (- 1 :: byte) n"
        by (auto simp: bit_simps)
    qed
  qed
  then show ?thesis by (simp only: m7 m8)
qed

lemma conversionDone_eq:
  "conversionDone w = (bit (fst (readConfig w)) 7, snd (readConfig w))"
  by (simp add: conversionDone_def or_127_iff_bit_7 split: prod.splits)

text \<open>
  C6. \<^verbatim>\<open>conversionDone()\<close> returns true exactly when bit 7 of the byte that
  \<^verbatim>\<open>readConfig()\<close> returned is set; when the device answers the request with
  the byte \<open>c\<close>, that byte is \<open>c\<close>; and for each of the 256 bytes the test
  \<^verbatim>\<open>(c | 127) == 255\<close> of the code agrees with testing bit 7 directly.
\<close>

theorem conversionDone_bit7:
  "conversionDone w = (bit (fst (readConfig w)) 7, snd (readConfig w))
   \<and> fst (conversionDone (w\<lparr>replies := (c # bs) # rs\<rparr>)) = bit c 7
   \<and> (\<forall>d :: byte. (d OR 127 = 255) = bit d 7)"
  by (simp add: conversionDone_eq fst_readConfig or_127_iff_bit_7)

subsection \<open>Decoding to sixteenths of a degree\<close>

lemma raw_word_eq:
  "(push_bit 8 (ucast (m :: byte)) + ucast (l :: byte) :: 32 word) = word_of_int (256 * uint m + uint l)"
  by (simp add: push_bit_eq_mult)

lemma raw_range:
  "0 \<le> 256 * uint (m :: byte) + uint (l :: byte)" "256 * uint m + uint l < 65536"
  using uint_lt2p [of m] uint_lt2p [of l] by simp_all

lemma sint_small: "- 2147483648 \<le> k \<Longrightarrow> k < 2147483648 \<Longrightarrow> sint (word_of_int k :: 32 word) = k"
  by (simp add: sint_sbintrunc' signed_take_bit_int_eq_self)

lemma int_or_add: "push_bit 8 (uint (m :: byte)) OR uint (l :: byte) = 256 * uint m + uint l"
proof -
  have "push_bit 8 (uint m) + uint l = push_bit 8 (uint m) OR uint l"
  proof (rule disjunctive_add_eq_or, rule bit_eqI)
    fix n
    show "bit (push_bit 8 (uint m) AND uint l) n = bit (0 :: int) n"
      by (auto simp: bit_simps dest: bit_imp_le_length)
  qed
  then show ?thesis by (simp add: push_bit_eq_mult)
qed

text \<open>
  C2. Whatever two bytes \<open>m\<close> (first) and \<open>l\<close> (second) the device delivers,
  \<^verbatim>\<open>readTempD\<close> returns \<open>T\<close> shifted right arithmetically by 4 (the floor of
  \<open>T / 16\<close>), where \<open>T\<close> is the word \<^verbatim>\<open>(m << 8) | l\<close> when that is below
  \<^verbatim>\<open>0x8000\<close> and the word minus \<^verbatim>\<open>0xFFFF\<close> otherwise. On the bytes \<^verbatim>\<open>0x19\<close>,
  \<^verbatim>\<open>0x00\<close> it returns 400.
\<close>

theorem readTempD_value:
  "sint (fst (readTempD (w\<lparr>replies := (m # l # bs) # rs\<rparr>))) =
     (let T = push_bit 8 (uint m) OR uint l
      in (if T < 0x8000 then T else T - 0xFFFF) div 2 ^ 4)
   \<and> fst (readTempD (boot 0 [[0x19, 0x00]] [])) = 400"
proof
  let ?w = "w\<lparr>replies := (m # l # bs) # rs\<rparr>"
  let ?v = "256 * uint m + uint l"
  have b: "MSByte (readT ?w) = m" "LSByte (readT ?w) = l"
    using readT_bytes [of ?w m l bs rs] by simp_all
  have r: "0 \<le> ?v" "?v < 65536" by (rule raw_range)+
  have T: "(push_bit 8 (ucast m) + ucast l :: 32 word) = word_of_int ?v" by (rule raw_word_eq)
  have sT: "sint (word_of_int ?v :: 32 word) = ?v" using r by (intro sint_small) arith+
  have c: "((0x8000 :: 32 word) \<le>s word_of_int ?v) = (0x8000 \<le> ?v)"
    by (simp only: word_sle_eq sT) simp
  have m: "(word_of_int ?v - 0xFFFF :: 32 word) = word_of_int (?v - 65535)" by simp
  have sm: "sint (word_of_int (?v - 65535) :: 32 word) = ?v - 65535"
    using r by (intro sint_small) arith+
  show "sint (fst (readTempD ?w)) =
     (let T = push_bit 8 (uint m) OR uint l
      in (if T < 0x8000 then T else T - 0xFFFF) div 2 ^ 4)"
    unfolding readTempD_def Let_def fst_conv b T c int_or_add
    by (simp only: m sint_signed_drop_bit_eq drop_bit_eq_div sT sm split: if_split) auto
next
  show "fst (readTempD (boot 0 [[0x19, 0x00]] [])) = 400"
    by (simp add: readTempD_def readT_def readTemperature_def wire_defs boot_def DS1631_def Let_def
        word_sle_eq)
qed

subsection \<open>Decoding to a float\<close>

lemma uint_drop_bit_4: "uint (drop_bit 4 (l :: byte)) = uint l div 16"
  by (simp add: drop_bit_eq_div uint_div_distrib)

lemma nibble_range: "0 \<le> uint (l :: byte) div 16" "uint l div 16 < 16"
  using uint_lt2p [of l] uint_ge_0 [of l] by (simp_all add: pos_imp_zdiv_nonneg_iff)

lemma msb_le: "((0x80 :: byte) \<le> m) = (128 \<le> uint m)"
  by (simp add: word_le_def)

lemma whole_range:
  "0 \<le> u \<Longrightarrow> u < 256 \<Longrightarrow>
   - 128 \<le> (if 128 \<le> u then u - 256 else u) \<and> (if 128 \<le> u then u - 256 else u) < (128 :: int)"
  by auto

lemma byteToFloat_fst:
  "fst (byteToFloat w) =
     of_int (if 128 \<le> uint (MSByte w) then uint (MSByte w) - 256 else uint (MSByte w))
     + of_int (uint (LSByte w) div 16) * 0.0625"
  by (simp add: byteToFloat_def Let_def msb_le uint_drop_bit_4)

lemma byteToFloat_snd:
  "snd (byteToFloat w) = w\<lparr>LSByte := drop_bit 4 (LSByte w)\<rparr>"
  by (simp add: byteToFloat_def Let_def)

lemma byteToFloat_sixteenths:
  "\<exists>k. fst (byteToFloat w) = of_int k / 16 \<and> - 2048 \<le> k \<and> k < 2048"
proof -
  let ?W = "if 128 \<le> uint (MSByte w) then uint (MSByte w) - 256 else uint (MSByte w)"
  let ?h = "uint (LSByte w) div 16"
  have W: "- 128 \<le> ?W" "?W < 128"
    using whole_range [OF uint_ge_0 [of "MSByte w"]] uint_lt2p [of "MSByte w"] by simp_all
  have h: "0 \<le> ?h" "?h < 16" by (rule nibble_range)+
  have "fst (byteToFloat w) = of_int (16 * ?W + ?h) / 16"
    unfolding byteToFloat_fst by (simp add: field_simps del: of_int_uint)
  moreover have "- 2048 \<le> 16 * ?W + ?h" "16 * ?W + ?h < 2048" using W h by arith+
  ultimately show ?thesis by blast
qed

lemma byteToFloat_range: "- 128 \<le> fst (byteToFloat w)" "fst (byteToFloat w) < 128"
proof -
  from byteToFloat_sixteenths [of w] obtain k where
    k: "fst (byteToFloat w) = of_int k / 16" "- 2048 \<le> k" "k < 2048" by blast
  from k(2) have "(- 2048 :: rat) \<le> of_int k" by (metis of_int_le_iff of_int_minus of_int_numeral)
  then show "- 128 \<le> fst (byteToFloat w)" by (simp add: k(1) field_simps)
  from k(3) have "of_int k < (2048 :: rat)" by (metis of_int_less_iff of_int_numeral)
  then show "fst (byteToFloat w) < 128" by (simp add: k(1) field_simps)
qed

text \<open>
  C1, as the code has it. For every \<^verbatim>\<open>MSByte\<close> \<open>m\<close> and \<^verbatim>\<open>LSByte\<close> \<open>l\<close>,
  \<^verbatim>\<open>byteToFloat\<close> returns \<open>W + (l >> 4) \<times> 0.0625\<close> with \<open>W = m - 256\<close> when
  \<open>m \<ge> 128\<close> and \<open>W = m\<close> otherwise: the fraction is always added, so \<^verbatim>\<open>0xFF\<close>,
  \<^verbatim>\<open>0x80\<close> decodes to \<open>-0.5\<close>. For \<open>m\<close> in \<open>[0, 127]\<close> the result is
  \<open>m + (l >> 4) \<times> 0.0625\<close> and is not negative; for \<open>m\<close> in \<open>[128, 255]\<close> it is
  negative.
\<close>

theorem byteToFloat_value:
  "fst (byteToFloat (w\<lparr>MSByte := m, LSByte := l\<rparr>)) =
     of_int (if 128 \<le> uint m then uint m - 256 else uint m) + of_int (uint l div 16) * 0.0625
   \<and> fst (byteToFloat (w\<lparr>MSByte := 0xFF, LSByte := 0x80\<rparr>)) = - 0.5
   \<and> (if uint m \<le> 127
       then fst (byteToFloat (w\<lparr>MSByte := m, LSByte := l\<rparr>)) =
              of_int (uint m) + of_int (uint l div 16) * 0.0625
            \<and> 0 \<le> fst (byteToFloat (w\<lparr>MSByte := m, LSByte := l\<rparr>))
       else fst (byteToFloat (w\<lparr>MSByte := m, LSByte := l\<rparr>)) < 0)"
proof (intro conjI)
  let ?w = "w\<lparr>MSByte := m, LSByte := l\<rparr>"
  have h: "0 \<le> uint l div 16" "uint l div 16 < 16" by (rule nibble_range)+
  then have hq: "(0 :: rat) \<le> of_int (uint l div 16)" "of_int (uint l div 16) < (16 :: rat)"
    by simp_all
  show "fst (byteToFloat ?w) =
     of_int (if 128 \<le> uint m then uint m - 256 else uint m) + of_int (uint l div 16) * 0.0625"
    by (simp add: byteToFloat_fst)
  show "fst (byteToFloat (w\<lparr>MSByte := 0xFF, LSByte := 0x80\<rparr>)) = - 0.5"
    by (simp add: byteToFloat_fst)
  show "if uint m \<le> 127
       then fst (byteToFloat ?w) = of_int (uint m) + of_int (uint l div 16) * 0.0625
            \<and> 0 \<le> fst (byteToFloat ?w)
       else fst (byteToFloat ?w) < 0"
  proof (cases "uint m \<le> 127")
    case True
    have "(0 :: rat) \<le> of_int (uint m)" by (simp del: of_int_uint)
    with True show ?thesis using hq by (simp add: byteToFloat_fst del: of_int_uint)
  next
    case False
    then have "128 \<le> uint m" by simp
    moreover have "uint m \<le> 255" using uint_lt2p [of m] by simp
    then have "(of_int (uint m) :: rat) \<le> 255" by (metis of_int_le_iff of_int_numeral)
    ultimately show ?thesis using hq False
      by (simp add: byteToFloat_fst field_simps del: of_int_uint)
  qed
qed

text \<open>
  C1 as stated asks for a positive result on all of \<open>[0, 127]\<close>. The bytes
  \<^verbatim>\<open>0x00\<close>, \<^verbatim>\<open>0x00\<close> (0 \<degree>C) decode to zero.
\<close>

theorem byteToFloat_zero_not_positive:
  "\<not> 0 < fst (byteToFloat ((boot 0 [] [])\<lparr>MSByte := 0x00, LSByte := 0x00\<rparr>))"
  by (simp add: byteToFloat_fst)

lemma drop_bit_4_twice: "drop_bit 4 (drop_bit 4 (l :: byte)) = 0"
  by (simp add: drop_bit_drop_bit)

lemma low_nibble_drop_bit_4: "drop_bit 4 (l :: byte) AND 0x0F = drop_bit 4 l"
proof -
  have "(0x0F :: byte) = mask 4" by (simp add: mask_eq_exp_minus_1)
  moreover have "drop_bit 4 l AND mask 4 = drop_bit 4 l"
    by (rule bit_eqI) (auto simp: bit_simps dest: bit_imp_le_length)
  ultimately show ?thesis by simp
qed

lemma nibble_zero_iff: "(uint (l :: byte) div 16 = 0) = (drop_bit 4 l = 0)"
  by (metis uint_drop_bit_4 uint_0_iff)

text \<open>
  C9. \<^verbatim>\<open>byteToFloat\<close> stores \<^verbatim>\<open>LSByte >> 4\<close> back into \<^verbatim>\<open>LSByte\<close> and leaves
  \<^verbatim>\<open>MSByte\<close> alone. A second call without a new reading returns a different
  value exactly when the high nibble of the original \<^verbatim>\<open>LSByte\<close> was not zero,
  and after the first call the low nibble of the stored \<^verbatim>\<open>LSByte\<close> holds that
  former high nibble: the low nibble is no longer zero.
\<close>

theorem byteToFloat_overwrites_LSByte:
  "LSByte (snd (byteToFloat w)) = drop_bit 4 (LSByte w)
   \<and> MSByte (snd (byteToFloat w)) = MSByte w
   \<and> (fst (byteToFloat (snd (byteToFloat w))) \<noteq> fst (byteToFloat w)) = (drop_bit 4 (LSByte w) \<noteq> 0)
   \<and> LSByte (snd (byteToFloat w)) AND 0x0F = drop_bit 4 (LSByte w)"
proof (intro conjI)
  show "LSByte (snd (byteToFloat w)) = drop_bit 4 (LSByte w)"
    by (simp add: byteToFloat_snd)
  show "MSByte (snd (byteToFloat w)) = MSByte w"
    by (simp add: byteToFloat_snd)
  show "LSByte (snd (byteToFloat w)) AND 0x0F = drop_bit 4 (LSByte w)"
    by (simp add: byteToFloat_snd low_nibble_drop_bit_4)
  have two: "uint (drop_bit 4 (LSByte w)) div 16 = 0"
    using uint_drop_bit_4 [of "drop_bit 4 (LSByte w)"] by (simp add: drop_bit_4_twice)
  show "(fst (byteToFloat (snd (byteToFloat w))) \<noteq> fst (byteToFloat w)) = (drop_bit 4 (LSByte w) \<noteq> 0)"
    unfolding byteToFloat_fst [of "snd (byteToFloat w)"] byteToFloat_fst [of w]
    by (simp add: byteToFloat_snd two nibble_zero_iff [symmetric] del: of_int_uint)
qed

subsection \<open>Setting the resolution\<close>

lemma readConfig_world:
  "snd (readConfig w) =
     w\<lparr>txaddr := address w, txbuf := [], rxbuf := [], replies := tl (replies w),
       trace := trace w @ [Tx (address w) [0xAC],
                           Rq (address w) 1 (case replies w of [] \<Rightarrow> [] | r # rs \<Rightarrow> take 1 r)]\<rparr>"
  by (cases "replies w"; cases "hd (replies w)") (simp_all add: readConfig_def wire_defs Let_def)

lemma writeConfig_trace:
  "trace (writeConfig d w) =
     trace w @ [Tx (address w) [0x22], Tx (address w) [0xAC, d], Tx (address w) [0x51]]"
  by (simp add: writeConfig_def stopConversion_def startConversion_def wire_defs Let_def)

lemma setResolution_out_of_range:
  "\<not> (9 \<le> res \<and> res \<le> 12) \<Longrightarrow> setResolution res w = w"
  by (auto simp: setResolution_def)

lemma setResolution_in_range:
  "9 \<le> res \<Longrightarrow> res \<le> 12 \<Longrightarrow>
   trace (setResolution res w) =
     trace (snd (readConfig w))
       @ [Tx (address w) [0x22],
          Tx (address w) [0xAC, fst (readConfig w) OR push_bit 2 (res - 9)],
          Tx (address w) [0x51]]"
  by (simp add: setResolution_def writeConfig_trace readConfig_world split_beta)

text \<open>
  C7 on a device in its power-up configuration \<^verbatim>\<open>0x0C\<close> (12 bits: bits 2 and 3
  set). \<^verbatim>\<open>setResolution(9)\<close> reads \<^verbatim>\<open>0x0C\<close> and writes \<^verbatim>\<open>0x0C | (0 << 2)\<close>,
  that is \<^verbatim>\<open>0x0C\<close> again: bits 2 and 3 of the byte written hold 3, not
  \<open>9 - 9 = 0\<close>.
\<close>

theorem setResolution_keeps_set_bits:
  "trace (setResolution 9 (boot 0 [[0x0C]] [])) =
     [Tx 72 [0xAC], Rq 72 1 [0x0C], Tx 72 [0x22], Tx 72 [0xAC, 0x0C], Tx 72 [0x51]]
   \<and> drop_bit 2 (0x0C :: byte) AND 3 = 3"
  by (simp add: setResolution_in_range readConfig_world fst_readConfig boot_def DS1631_def)

subsection \<open>Encoding a float\<close>


lemma trunc_of_int: "trunc (of_int n) = n"
  by (simp add: trunc_def)

lemma uint_byte_of_int: "uint (word_of_int n :: byte) = n mod 256"
  by (simp add: uint_word_of_int)

lemma whole_of_int_cong: "\<exists>j. whole (word_of_int n) = n + 256 * j"
proof -
  have "n mod 256 = n + 256 * (- (n div 256))"
    by (simp add: minus_div_mult_eq_mod [symmetric])
  moreover have "n mod 256 - 256 = n + 256 * (- (n div 256) - 1)"
    by (simp add: minus_div_mult_eq_mod [symmetric])
  ultimately show ?thesis
    unfolding whole_def uint_byte_of_int by (cases "128 \<le> n mod 256") (simp_all only: if_True if_False, blast+)
qed

lemma whole_of_int_small: "- 128 \<le> n \<Longrightarrow> n \<le> 127 \<Longrightarrow> whole (word_of_int n) = n"
proof -
  assume a: "- 128 \<le> n" "n \<le> 127"
  show ?thesis
  proof (cases "0 \<le> n")
    case True
    with a have "n mod 256 = n" by simp
    with a show ?thesis by (simp add: whole_def uint_byte_of_int)
  next
    case False
    with a have "(n + 256) mod 256 = n + 256" by (intro mod_pos_pos_trivial) simp_all
    then have "n mod 256 = n + 256" by simp
    with False a show ?thesis by (simp add: whole_def uint_byte_of_int)
  qed
qed

lemma whole_bounds: "- 128 \<le> whole m" "whole m < 128"
  using whole_range [OF uint_ge_0 [of m]] uint_lt2p [of m] by (simp_all add: whole_def)

lemma byteToFloat_whole:
  "fst (byteToFloat w) = of_int (whole (MSByte w)) + of_int (uint (LSByte w) div 16) / 16"
  by (simp add: byteToFloat_fst whole_def del: of_int_uint)

lemma floatToByte_Some:
  "INT_MIN \<le> trunc f \<Longrightarrow> trunc f \<le> INT_MAX \<Longrightarrow>
   floatToByte f w =
     Some (w\<lparr>MSByte := word_of_int (trunc f),
             LSByte := push_bit 4 (word_of_int (trunc ((f - of_int (trunc f)) / 0.0625)))\<rparr>)"
  by (simp add: floatToByte_def Let_def)

text \<open>
  C5. For every whole number \<open>n\<close> from 0 to 127 (the non-negative values of a
  two's-complement byte), \<^verbatim>\<open>floatToByte\<close> stores \<open>n\<close> in \<^verbatim>\<open>MSByte\<close> and zero in
  \<^verbatim>\<open>LSByte\<close>, and \<^verbatim>\<open>byteToFloat\<close> on the result returns \<open>n\<close> again. At 25.0 the
  bytes are \<^verbatim>\<open>0x19\<close> and \<^verbatim>\<open>0x00\<close>.
\<close>

theorem floatToByte_integral_roundtrip:
  "0 \<le> n \<Longrightarrow> n \<le> 127 \<Longrightarrow>
   \<exists>w'. floatToByte (of_int n) w = Some w'
        \<and> MSByte w' = word_of_int n \<and> uint (MSByte w') = n
        \<and> LSByte w' = 0
        \<and> fst (byteToFloat w') = of_int n"
proof -
  assume n: "0 \<le> n" "n \<le> 127"
  let ?w' = "w\<lparr>MSByte := word_of_int n, LSByte := 0\<rparr>"
  from n have r: "INT_MIN \<le> trunc (of_int n)" "trunc (of_int n) \<le> INT_MAX"
    by (simp_all add: trunc_of_int INT_MIN_def INT_MAX_def)
  have e: "floatToByte (of_int n) w = Some ?w'"
    unfolding floatToByte_Some [OF r] by (simp add: trunc_of_int trunc_def)
  from n have u: "uint (word_of_int n :: byte) = n" by (simp add: uint_byte_of_int)
  from n have "whole (word_of_int n) = n" by (intro whole_of_int_small) simp_all
  then have d: "fst (byteToFloat ?w') = of_int n" by (simp add: byteToFloat_whole)
  from e u d show ?thesis by simp
qed

theorem floatToByte_integral_roundtrip_witness:
  "(0 :: int) \<le> 25 \<and> (25 :: int) \<le> 127
   \<and> (\<exists>w'. floatToByte 25 (boot 0 [] []) = Some w'
          \<and> MSByte w' = 0x19 \<and> LSByte w' = 0x00 \<and> fst (byteToFloat w') = 25)"
  using floatToByte_integral_roundtrip [of 25 "boot 0 [] []"] by auto


text \<open>
  From 128 to 255 the encoder still stores the number in \<^verbatim>\<open>MSByte\<close>, but the byte
  then reads as a negative whole part.
\<close>

lemma floatToByte_integral_beyond_127:
  assumes "128 \<le> n" "n \<le> 255"
  shows "\<exists>w'. floatToByte (of_int n) w = Some w' \<and> uint (MSByte w') = n \<and> LSByte w' = 0
           \<and> fst (byteToFloat w') = of_int n - 256"
proof -
  let ?w' = "w\<lparr>MSByte := word_of_int n, LSByte := 0\<rparr>"
  from assms have r: "INT_MIN \<le> trunc (of_int n)" "trunc (of_int n) \<le> INT_MAX"
    by (simp_all add: trunc_of_int INT_MIN_def INT_MAX_def)
  have e: "floatToByte (of_int n) w = Some ?w'"
    unfolding floatToByte_Some [OF r] by (simp add: trunc_of_int trunc_def)
  from assms have u: "uint (word_of_int n :: byte) = n" by (simp add: uint_byte_of_int)
  with assms have "whole (word_of_int n) = n - 256" by (simp add: whole_def)
  then have d: "fst (byteToFloat ?w') = of_int n - 256" by (simp add: byteToFloat_whole)
  from e u d show ?thesis by simp
qed

lemma trunc_neg: "f < 0 \<Longrightarrow> trunc f = \<lceil>f\<rceil>"
  by (simp add: trunc_def)

lemma frac_neg_bounds:
  assumes "f < 0"
  shows "- 1 < f - of_int (trunc f)" "f - of_int (trunc f) \<le> 0"
  using assms ceiling_correct [of f] by (simp_all add: trunc_neg)

lemma frac_zero_iff: "(f - of_int (trunc f) = 0) = (f \<in> \<int>)"
proof
  assume "f - of_int (trunc f) = 0"
  then have "f = of_int (trunc f)" by simp
  then show "f \<in> \<int>" by (metis Ints_of_int)
next
  assume "f \<in> \<int>"
  then obtain n where "f = of_int n" by (auto elim: Ints_cases)
  then show "f - of_int (trunc f) = 0" by (simp add: trunc_of_int)
qed

lemma trunc_zero: "trunc 0 = 0"
  by (simp add: trunc_def)

text \<open>
  C4, as the code has it. For every negative \<open>f\<close> whose truncation fits \<^verbatim>\<open>int\<close>,
  \<^verbatim>\<open>floatToByte\<close> followed by \<^verbatim>\<open>byteToFloat\<close> returns \<open>f\<close> exactly when \<open>f\<close> is a
  whole number not below \<open>-128\<close>; it returns a different value when \<open>f\<close> has a
  fractional part or lies below \<open>-128\<close>.
\<close>

theorem floatToByte_negative_roundtrip:
  assumes neg: "f < 0" and rep: "INT_MIN \<le> trunc f"
  shows "\<exists>w'. floatToByte f w = Some w'
            \<and> (fst (byteToFloat w') = f) = (f \<in> \<int> \<and> - 128 \<le> f)"
proof -
  let ?n = "trunc f"
  let ?r = "f - of_int ?n"
  let ?l = "push_bit 4 (word_of_int (trunc (?r / 0.0625))) :: byte"
  let ?w' = "w\<lparr>MSByte := word_of_int ?n, LSByte := ?l\<rparr>"
  let ?h = "uint ?l div 16"
  from neg have n0: "?n \<le> 0" by (simp add: trunc_neg ceiling_le_zero)
  then have "?n \<le> INT_MAX" by (simp add: INT_MAX_def)
  with rep have e: "floatToByte f w = Some ?w'" by (rule floatToByte_Some)
  have d: "fst (byteToFloat ?w') = of_int (whole (word_of_int ?n)) + of_int ?h / 16"
    by (simp add: byteToFloat_whole)
  have h: "0 \<le> ?h" "?h < 16" by (rule nibble_range)+
  have "(fst (byteToFloat ?w') = f) = (f \<in> \<int> \<and> - 128 \<le> f)"
  proof (cases "f \<in> \<int>")
    case True
    then have r0: "?r = 0" using frac_zero_iff [of f] by blast
    then have fn: "f = of_int ?n" by simp
    have "?l = 0" unfolding r0 by (simp add: trunc_zero)
    then have dn: "fst (byteToFloat ?w') = of_int (whole (word_of_int ?n))"
      unfolding d by simp
    have "(whole (word_of_int ?n) = ?n) = (- 128 \<le> ?n)"
    proof
      assume "whole (word_of_int ?n) = ?n"
      with whole_bounds(1) [of "word_of_int ?n"] show "- 128 \<le> ?n" by simp
    next
      assume "- 128 \<le> ?n"
      with n0 show "whole (word_of_int ?n) = ?n" by (intro whole_of_int_small) simp_all
    qed
    moreover have "(- 128 \<le> ?n) = (- 128 \<le> f)"
      by (subst (2) fn) (metis of_int_le_iff of_int_minus of_int_numeral)
    moreover have "(fst (byteToFloat ?w') = f) = (whole (word_of_int ?n) = ?n)"
      unfolding dn by (subst (2) fn) (simp only: of_int_eq_iff)
    ultimately show ?thesis using True by simp
  next
    case False
    then have "?r \<noteq> 0" using frac_zero_iff [of f] by blast
    with frac_neg_bounds [OF neg] have r: "- 1 < ?r" "?r < 0" by simp_all
    obtain j where j: "whole (word_of_int ?n) = ?n + 256 * j"
      using whole_of_int_cong [of ?n] by blast
    have "fst (byteToFloat ?w') \<noteq> f"
    proof
      assume "fst (byteToFloat ?w') = f"
      then have "of_int (?n + 256 * j) + of_int ?h / 16 = (of_int ?n + ?r :: rat)"
        unfolding d j by simp
      then have eq: "of_int (256 * j) = ?r - of_int ?h / 16" by simp
      have hq: "(0 :: rat) \<le> of_int ?h" "of_int ?h < (16 :: rat)" using h by simp_all
      from eq r hq have "(of_int (256 * j) :: rat) < 0" "(- 2 :: rat) < of_int (256 * j)"
        by (simp_all add: field_simps)
      then have "256 * j < 0" "- 2 < 256 * j"
        by (metis of_int_less_iff of_int_0, metis of_int_less_iff of_int_minus of_int_numeral)
      then show False by arith
    qed
    with False show ?thesis by simp
  qed
  with e show ?thesis by blast
qed

theorem floatToByte_negative_roundtrip_witness:
  "(- 1.5 :: rat) < 0 \<and> INT_MIN \<le> trunc (- 1.5)
   \<and> (\<exists>w'. floatToByte (- 1.5) (boot 0 [] []) = Some w' \<and> fst (byteToFloat w') \<noteq> - 1.5)"
proof -
  have a: "(- 1.5 :: rat) < 0" by simp
  have b: "INT_MIN \<le> trunc (- 1.5)" by code_simp
  have "(- 1.5 :: rat) - of_int (trunc (- 1.5)) \<noteq> 0" by code_simp
  then have c: "(- 1.5 :: rat) \<notin> \<int>" using frac_zero_iff [of "- 1.5"] by blast
  from floatToByte_negative_roundtrip [OF a b, of "boot 0 [] []"] c a b show ?thesis by blast
qed

text \<open>
  C4 as stated says the round trip differs from \<open>f\<close> for every negative \<open>f\<close>.
  At \<open>f = -1\<close> the bytes are \<^verbatim>\<open>0xFF\<close>, \<^verbatim>\<open>0x00\<close> and decode to \<open>-1\<close>.
\<close>

theorem floatToByte_minus_one_roundtrip:
  "(- 1 :: rat) < 0
   \<and> map_option (fst \<circ> byteToFloat) (floatToByte (- 1) (boot 0 [] [])) = Some (- 1)"
  by code_simp

subsection \<open>The rational model is exact\<close>

text \<open>
  An IEEE 754 operation returns the exact result whenever that result is a
  value of the format. The lemmas below show that this is the case at every
  step of the decoder, and at every step of the encoder on a binary32 input,
  so computing on the rationals gives the very values the code computes.
\<close>

lemma binary32_int: "\<bar>k\<bar> < 2 ^ 24 \<Longrightarrow> binary32 (of_int k)"
  unfolding binary32_def by (rule exI [of _ k], rule exI [of _ 0]) simp

lemma binary32_frac: "\<bar>k\<bar> < 2 ^ 24 \<Longrightarrow> c \<le> 149 \<Longrightarrow> binary32 (of_int k / 2 ^ c)"
  unfolding binary32_def by (rule exI [of _ k], rule exI [of _ c]) simp

lemma binary32_scaled: "\<bar>k\<bar> < 2 ^ 24 \<Longrightarrow> c \<le> 104 \<Longrightarrow> binary32 (of_int k * 2 ^ c)"
  unfolding binary32_def by (rule exI [of _ k], rule exI [of _ c]) simp

lemma binary32_sixteenths: "\<bar>k\<bar> < 2 ^ 24 \<Longrightarrow> binary32 (of_int k / 16)"
  using binary32_frac [of k 4] by simp

lemma binary32_uminus: "binary32 x \<Longrightarrow> binary32 (- x)"
proof -
  assume "binary32 x"
  then obtain m c where m: "\<bar>m\<bar> < 2 ^ 24"
    and x: "x = of_int m * 2 ^ c \<and> c \<le> 104 \<or> x = of_int m / 2 ^ c \<and> c \<le> 149"
    unfolding binary32_def by blast
  from x have "- x = of_int (- m) * 2 ^ c \<and> c \<le> 104 \<or> - x = of_int (- m) / 2 ^ c \<and> c \<le> 149"
    by auto
  moreover from m have "\<bar>- m\<bar> < 2 ^ 24" by simp
  ultimately show "binary32 (- x)" unfolding binary32_def by blast
qed

lemma trunc_uminus: "trunc (- f) = - trunc f"
  by (cases "f = 0") (auto simp: trunc_def ceiling_def)

lemma trunc_nonneg_div:
  assumes "0 \<le> m"
  shows "trunc (of_int m / 2 ^ c) = m div 2 ^ c"
proof -
  from assms have "(0 :: rat) \<le> of_int m / 2 ^ c" by simp
  then have "trunc (of_int m / 2 ^ c) = \<lfloor>(of_int m :: rat) / of_int (2 ^ c)\<rfloor>"
    by (simp add: trunc_def)
  also have "\<dots> = m div 2 ^ c" by (rule floor_divide_of_int_eq)
  finally show ?thesis .
qed

text \<open>
  For a non-negative binary32 value \<open>f\<close>, the conversion \<^verbatim>\<open>int(f)\<close>, the difference
  \<^verbatim>\<open>f - int(f)\<close> and the quotient by \<^verbatim>\<open>0.0625\<close> are binary32 values again.
\<close>

lemma encoder_steps_nonneg:
  assumes "binary32 f" "0 \<le> f"
  shows "binary32 (of_int (trunc f))" "binary32 (f - of_int (trunc f))"
    "binary32 ((f - of_int (trunc f)) / 0.0625)"
proof -
  from assms(1) obtain m c where m: "\<bar>m\<bar> < 2 ^ 24"
    and x: "f = of_int m * 2 ^ c \<and> c \<le> 104 \<or> f = of_int m / 2 ^ c \<and> c \<le> 149"
    unfolding binary32_def by blast
  have "binary32 (of_int (trunc f)) \<and> binary32 (f - of_int (trunc f))
        \<and> binary32 ((f - of_int (trunc f)) / 0.0625)"
  proof (cases "f = of_int m * 2 ^ c \<and> c \<le> 104")
    case True
    then have "f = of_int (m * 2 ^ c)" by simp
    then have t: "of_int (trunc f) = f" by (simp only: trunc_of_int)
    have "binary32 0" using binary32_int [of 0] by simp
    with t assms(1) show ?thesis by simp
  next
    case False
    with x have f: "f = of_int m / 2 ^ c" and c: "c \<le> 149" by simp_all
    from assms(2) f have m0: "0 \<le> m" by (simp add: pos_le_divide_eq)
    with f have t: "trunc f = m div 2 ^ c" by (simp add: trunc_nonneg_div)
    have p: "(0 :: int) < 2 ^ c" by simp
    from m0 p have "0 \<le> m div 2 ^ c" by (simp add: pos_imp_zdiv_nonneg_iff)
    moreover from m0 have "m div 2 ^ c \<le> m"
      by (cases "m = 0") (simp_all add: int_div_le_self)
    moreover note m0 m
    ultimately have q: "\<bar>m div 2 ^ c\<bar> < 2 ^ 24" by simp
    from m0 p have "0 \<le> m mod 2 ^ c" "m mod 2 ^ c \<le> m"
      by (simp_all add: zmod_le_nonneg_dividend)
    with m0 m have r: "\<bar>m mod 2 ^ c\<bar> < 2 ^ 24" by simp
    have "(of_int (m div 2 ^ c * 2 ^ c + m mod 2 ^ c) :: rat)
          = of_int (m div 2 ^ c) * 2 ^ c + of_int (m mod 2 ^ c)"
      by (simp only: of_int_add of_int_mult of_int_power of_int_numeral)
    then have split: "(of_int m :: rat) = of_int (m div 2 ^ c) * 2 ^ c + of_int (m mod 2 ^ c)"
      by (simp only: div_mult_mod_eq)
    from t have "f - of_int (trunc f) = f - of_int (m div 2 ^ c)" by simp
    also have "\<dots> = of_int m / 2 ^ c - of_int (m div 2 ^ c)" by (simp only: f)
    also have "\<dots> = of_int (m mod 2 ^ c) / 2 ^ c"
      by (subst split) (simp add: field_simps)
    finally have d: "f - of_int (trunc f) = of_int (m mod 2 ^ c) / 2 ^ c" .
    have b1: "binary32 (of_int (trunc f))" unfolding t using q by (rule binary32_int)
    have b2: "binary32 (f - of_int (trunc f))" unfolding d using r c by (rule binary32_frac)
    have b3: "binary32 ((f - of_int (trunc f)) / 0.0625)"
    proof (cases "4 \<le> c")
      case True
      then obtain c' where c': "c = c' + 4" by (metis le_add_diff_inverse2)
      have "(of_int (m mod 2 ^ c) / 2 ^ c) / 0.0625 = (of_int (m mod 2 ^ c) / 2 ^ c' :: rat)"
        unfolding c' by (simp add: power_add)
      moreover from c c' have "c' \<le> 149" by simp
      ultimately show ?thesis unfolding d using binary32_frac [OF r, of c'] by simp
    next
      case False
      then obtain c' where c': "4 = c + c'" by (metis le_add_diff_inverse nat_le_linear)
      have "(2 :: rat) ^ c * 2 ^ c' = 2 ^ 4" by (simp only: power_add [symmetric] c' [symmetric])
      then have s: "(16 :: rat) = 2 ^ c * 2 ^ c'" by simp
      have "(of_int (m mod 2 ^ c) / 2 ^ c) / 0.0625 = (of_int (m mod 2 ^ c) * 16 / 2 ^ c :: rat)"
        by simp
      also have "\<dots> = of_int (m mod 2 ^ c) * 2 ^ c'" by (subst s) simp
      finally have "(of_int (m mod 2 ^ c) / 2 ^ c) / 0.0625 = (of_int (m mod 2 ^ c) * 2 ^ c' :: rat)" .
      moreover from c' have "c' \<le> 104" by simp
      ultimately show ?thesis unfolding d using binary32_scaled [OF r, of c'] by simp
    qed
    from b1 b2 b3 show ?thesis by simp
  qed
  then show "binary32 (of_int (trunc f))" "binary32 (f - of_int (trunc f))"
    "binary32 ((f - of_int (trunc f)) / 0.0625)" by simp_all
qed

lemma encoder_steps_binary32:
  assumes "binary32 f"
  shows "binary32 (of_int (trunc f))" "binary32 (f - of_int (trunc f))"
    "binary32 ((f - of_int (trunc f)) / 0.0625)"
proof -
  have "binary32 (of_int (trunc f)) \<and> binary32 (f - of_int (trunc f))
        \<and> binary32 ((f - of_int (trunc f)) / 0.0625)"
  proof (cases "0 \<le> f")
    case True
    with assms show ?thesis by (intro conjI encoder_steps_nonneg)
  next
    case False
    then have n: "0 \<le> - f" by simp
    from assms have b: "binary32 (- f)" by (rule binary32_uminus)
    note s = encoder_steps_nonneg [OF b n, THEN binary32_uminus]
    have "- of_int (trunc (- f)) = (of_int (trunc f) :: rat)"
      "- (- f - of_int (trunc (- f))) = f - of_int (trunc f)"
      "- ((- f - of_int (trunc (- f))) / 0.0625) = (f - of_int (trunc f)) / 0.0625"
      by (simp_all add: trunc_uminus)
    with s show ?thesis by (simp only:)
  qed
  then show "binary32 (of_int (trunc f))" "binary32 (f - of_int (trunc f))"
    "binary32 ((f - of_int (trunc f)) / 0.0625)" by simp_all
qed

lemma byte_magnitudes:
  "0 \<le> u \<Longrightarrow> u < 256 \<Longrightarrow> \<bar>u - 256\<bar> < (2 :: int) ^ 24 \<and> \<bar>u\<bar> < 2 ^ 24"
  by simp

lemma decoder_steps_binary32:
  "binary32 (of_int (uint (m :: byte) - 256))"
  "binary32 (of_int (uint (m :: byte)))"
  "binary32 (of_int (uint (l :: byte)) * 0.0625)"
  "binary32 (fst (byteToFloat w))"
proof -
  have m: "\<bar>uint m - 256\<bar> < 2 ^ 24 \<and> \<bar>uint m\<bar> < 2 ^ 24"
    using uint_lt2p [of m] by (intro byte_magnitudes) simp_all
  have l: "\<bar>uint l - 256\<bar> < 2 ^ 24 \<and> \<bar>uint l\<bar> < 2 ^ 24"
    using uint_lt2p [of l] by (intro byte_magnitudes) simp_all
  from m have "\<bar>uint m - 256\<bar> < 2 ^ 24" by blast
  then show "binary32 (of_int (uint m - 256))" by (rule binary32_int)
  from m have "\<bar>uint m\<bar> < 2 ^ 24" by blast
  then show "binary32 (of_int (uint m))" by (rule binary32_int)
  from l have "\<bar>uint l\<bar> < 2 ^ 24" by blast
  then have "binary32 (of_int (uint l) / 16)" by (rule binary32_sixteenths)
  then show "binary32 (of_int (uint l) * 0.0625)" by (simp del: of_int_uint)
  from byteToFloat_sixteenths [of w] obtain k where
    k: "fst (byteToFloat w) = of_int k / 16" "- 2048 \<le> k" "k < 2048" by blast
  from k(2,3) have "\<bar>k\<bar> < 2 ^ 24" by simp
  then show "binary32 (fst (byteToFloat w))" unfolding k(1) by (rule binary32_sixteenths)
qed

subsection \<open>One-shot polling\<close>

lemma clock_readConfig: "clock (snd (readConfig w)) = clock w"
  by (simp add: readConfig_def wire_defs Let_def split: list.splits)

lemma startConversion_frame:
  "clock (startConversion w) = clock w" "replies (startConversion w) = replies w"
  "stale (startConversion w) = stale w"
  by (simp_all add: startConversion_def wire_defs Let_def)

lemma millis_Cons:
  "clock w = t # ts \<Longrightarrow> millis w = Some (t, w\<lparr>clock := ts, trace := trace w @ [Sample t]\<rparr>)"
  by (simp add: millis_def)

lemma sless_1000_not_50: "1000 <s (x :: 32 word) \<Longrightarrow> \<not> x <s 50"
  by (simp add: word_sless_alt)

lemma zero_sless_50: "(0 :: 32 word) <s 50"
  by (simp add: word_sless_alt)

lemma never_done_readConfig:
  assumes "never_done w"
  shows "\<not> bit (fst (readConfig w)) 7" "never_done (snd (readConfig w))"
proof -
  from assms have s: "\<not> bit (stale w) 7" and a: "list_all (quiet (stale w)) (replies w)"
    by (simp_all add: never_done_def)
  show "\<not> bit (fst (readConfig w)) 7"
    using s a by (auto simp: fst_readConfig quiet_def split: list.splits)
  from a have "list_all (quiet (stale w)) (tl (replies w))"
    by (cases "replies w") simp_all
  with s show "never_done (snd (readConfig w))"
    by (simp add: never_done_def replies_readConfig stale_readConfig)
qed

lemma never_done_conversionDone:
  "never_done w \<Longrightarrow> conversionDone w = (False, snd (readConfig w))"
  by (simp add: conversionDone_eq never_done_readConfig)

text \<open>The wait on a clock that reaches the deadline at the sample \<open>tn\<close>.\<close>

lemma spin_towards_deadline:
  assumes "e <s 50" "clock w = ts @ tn # rest"
    "\<forall>t \<in> set ts. \<not> 1000 <s t - t0" "1000 <s tn - t0"
  shows "\<exists>e' w'. spin t0 e w = Some (e', w') \<and> replies w' = replies w \<and> stale w' = stale w
           \<and> (if 1000 <s e' then clock w' = rest
               else \<exists>ts'. clock w' = ts' @ tn # rest \<and> length ts' < length ts
                      \<and> set ts' \<subseteq> set ts)"
  using assms
proof (induction ts arbitrary: e w)
  case Nil
  let ?w1 = "w\<lparr>clock := rest, trace := trace w @ [Sample tn]\<rparr>"
  from Nil have m: "millis w = Some (tn, ?w1)" by (simp add: millis_Cons)
  from Nil have "\<not> tn - t0 <s 50" by (simp add: sless_1000_not_50)
  then have "spin t0 (tn - t0) ?w1 = Some (tn - t0, ?w1)" by (simp add: spin.simps)
  with Nil m have "spin t0 e w = Some (tn - t0, ?w1)" by (simp add: spin.simps [of t0 e w])
  with Nil show ?case by simp
next
  case (Cons t ts)
  let ?w1 = "w\<lparr>clock := ts @ tn # rest, trace := trace w @ [Sample t]\<rparr>"
  from Cons.prems have m: "millis w = Some (t, ?w1)" by (simp add: millis_Cons)
  with Cons.prems have s: "spin t0 e w = spin t0 (t - t0) ?w1"
    by (simp add: spin.simps [of t0 e w])
  show ?case
  proof (cases "t - t0 <s 50")
    case True
    from Cons.IH [OF True, of ?w1] Cons.prems
    obtain e' w' where r: "spin t0 (t - t0) ?w1 = Some (e', w')"
      "replies w' = replies w" "stale w' = stale w"
      "if 1000 <s e' then clock w' = rest
       else \<exists>ts'. clock w' = ts' @ tn # rest \<and> length ts' < length ts \<and> set ts' \<subseteq> set ts"
      by auto
    from r(4) have "if 1000 <s e' then clock w' = rest
       else \<exists>ts'. clock w' = ts' @ tn # rest \<and> length ts' < length (t # ts)
              \<and> set ts' \<subseteq> set (t # ts)"
      by (auto split: if_splits)
    with r(1-3) s show ?thesis by simp
  next
    case False
    then have "spin t0 (t - t0) ?w1 = Some (t - t0, ?w1)" by (simp add: spin.simps)
    moreover from Cons.prems have "\<not> 1000 <s t - t0" by simp
    ultimately show ?thesis using s by auto
  qed
qed

lemma pollLoop_times_out:
  assumes "never_done w" "clock w = ts @ tn # rest"
    "\<forall>t \<in> set ts. \<not> 1000 <s t - t0" "1000 <s tn - t0"
  shows "\<exists>w'. pollLoop t0 w = Some (TimedOut, w') \<and> clock w' = rest"
  using assms
proof (induction "length ts" arbitrary: ts w rule: less_induct)
  case less
  let ?w1 = "snd (readConfig w)"
  from less.prems have c: "conversionDone w = (False, ?w1)"
    by (simp add: never_done_conversionDone)
  from less.prems have n1: "never_done ?w1" by (simp add: never_done_readConfig)
  from less.prems have k1: "clock ?w1 = ts @ tn # rest" by (simp add: clock_readConfig)
  from spin_towards_deadline [OF zero_sless_50 k1 less.prems(3,4)]
  obtain e' w2 where r: "spin t0 0 ?w1 = Some (e', w2)"
    "replies w2 = replies ?w1" "stale w2 = stale ?w1"
    "if 1000 <s e' then clock w2 = rest
     else \<exists>ts'. clock w2 = ts' @ tn # rest \<and> length ts' < length ts \<and> set ts' \<subseteq> set ts"
    by blast
  show ?case
  proof (cases "1000 <s e'")
    case True
    with r c show ?thesis by (simp add: pollLoop.simps [of t0 w])
  next
    case False
    with r(4) obtain ts' where t: "clock w2 = ts' @ tn # rest" "length ts' < length ts"
      "set ts' \<subseteq> set ts" by auto
    from n1 r(2,3) have "never_done w2" by (simp add: never_done_def)
    moreover from t(3) less.prems(3) have "\<forall>t \<in> set ts'. \<not> 1000 <s t - t0" by auto
    ultimately obtain w' where "pollLoop t0 w2 = Some (TimedOut, w')" "clock w' = rest"
      using less.hyps [OF t(2) _ t(1) _ less.prems(4)] by blast
    with False r c show ?thesis by (simp add: pollLoop.simps [of t0 w])
  qed
qed

text \<open>One wait on a clock that keeps below the deadline.\<close>

lemma spin_below_deadline:
  assumes "e <s 50" "clock w = ts @ rest" "\<forall>t \<in> set ts. \<not> 1000 <s t - t0"
    "Suc n \<le> length (filter (due t0) ts)"
  shows "\<exists>e' w' ts'. spin t0 e w = Some (e', w') \<and> \<not> 1000 <s e'
           \<and> replies w' = replies w \<and> stale w' = stale w
           \<and> clock w' = ts' @ rest \<and> set ts' \<subseteq> set ts
           \<and> n \<le> length (filter (due t0) ts')"
  using assms
proof (induction ts arbitrary: e w)
  case Nil
  then show ?case by simp
next
  case (Cons t ts)
  let ?w1 = "w\<lparr>clock := ts @ rest, trace := trace w @ [Sample t]\<rparr>"
  from Cons.prems have m: "millis w = Some (t, ?w1)" by (simp add: millis_Cons)
  with Cons.prems have s: "spin t0 e w = spin t0 (t - t0) ?w1"
    by (simp add: spin.simps [of t0 e w])
  show ?case
  proof (cases "t - t0 <s 50")
    case True
    then have "\<not> due t0 t" by (simp add: due_def)
    with Cons.prems have "Suc n \<le> length (filter (due t0) ts)" by simp
    from Cons.IH [OF True, of ?w1, OF _ _ this] Cons.prems
    obtain e' w' ts' where r: "spin t0 (t - t0) ?w1 = Some (e', w')" "\<not> 1000 <s e'"
      "replies w' = replies w" "stale w' = stale w"
      "clock w' = ts' @ rest" "set ts' \<subseteq> set ts" "n \<le> length (filter (due t0) ts')"
      by auto
    from r(6) have "set ts' \<subseteq> set (t # ts)" by auto
    with r s show ?thesis by auto
  next
    case False
    then have "spin t0 (t - t0) ?w1 = Some (t - t0, ?w1)" by (simp add: spin.simps)
    moreover from Cons.prems have "\<not> 1000 <s t - t0" by simp
    moreover from False have "due t0 t" by (simp add: due_def)
    with Cons.prems have "n \<le> length (filter (due t0) ts)" by simp
    ultimately show ?thesis using s by auto
  qed
qed

lemma pollLoop_done:
  assumes "replies w = pre @ (c # bs) # post" "list_all (quiet (stale w)) pre" "bit c 7"
    "clock w = ts @ rest" "\<forall>t \<in> set ts. \<not> 1000 <s t - t0"
    "length pre \<le> length (filter (due t0) ts)"
  shows "\<exists>w'. pollLoop t0 w = Some (Done, w') \<and> replies w' = post"
  using assms
proof (induction pre arbitrary: w ts)
  case Nil
  then have "conversionDone w = (True, snd (readConfig w))"
    by (simp add: conversionDone_eq fst_readConfig)
  moreover from Nil have "replies (snd (readConfig w)) = post" by (simp add: replies_readConfig)
  ultimately show ?case by (simp add: pollLoop.simps [of t0 w])
next
  case (Cons p pre)
  let ?w1 = "snd (readConfig w)"
  from Cons.prems have "\<not> bit (fst (readConfig w)) 7"
    by (auto simp: fst_readConfig quiet_def split: list.splits)
  then have c: "conversionDone w = (False, ?w1)" by (simp add: conversionDone_eq)
  from Cons.prems have r1: "replies ?w1 = pre @ (c # bs) # post" by (simp add: replies_readConfig)
  from Cons.prems have k1: "clock ?w1 = ts @ rest" by (simp add: clock_readConfig)
  from Cons.prems have "Suc (length pre) \<le> length (filter (due t0) ts)" by simp
  from spin_below_deadline [OF zero_sless_50 k1 Cons.prems(5) this]
  obtain e' w2 ts' where r: "spin t0 0 ?w1 = Some (e', w2)" "\<not> 1000 <s e'"
    "replies w2 = replies ?w1" "stale w2 = stale ?w1"
    "clock w2 = ts' @ rest" "set ts' \<subseteq> set ts" "length pre \<le> length (filter (due t0) ts')"
    by blast
  from r(3) r1 have a: "replies w2 = pre @ (c # bs) # post" by simp
  from r(4) Cons.prems(2) have b: "list_all (quiet (stale w2)) pre"
    by (simp add: stale_readConfig)
  from r(6) Cons.prems(5) have d: "\<forall>t \<in> set ts'. \<not> 1000 <s t - t0" by auto
  from Cons.IH [OF a b Cons.prems(3) r(5) d r(7)]
  obtain w' where "pollLoop t0 w2 = Some (Done, w')" "replies w' = post" by blast
  with r(1,2) c show ?case by (simp add: pollLoop.simps [of t0 w])
qed

lemma decoded_not_sentinel: "fst (byteToFloat w) \<noteq> - 32768"
  using byteToFloat_range(1) [of w] by auto

text \<open>
  C3. First part: when no configuration read ever shows bit 7 set and the
  clock samples after the start \<open>t0\<close> are \<open>ts\<close>, none of them more than 1000 ms
  after \<open>t0\<close>, followed by a sample \<open>tn\<close> that is, \<^verbatim>\<open>readTempOneShot\<close> returns
  \<open>-32768\<close> on taking the sample \<open>tn\<close>: it has used the clock up to \<open>tn\<close> and
  no further, so it returns at the first sample beyond 1000 ms and not before.
  Second part: when the configuration reads answer \<open>pre\<close> with bit 7 clear and
  then \<open>c\<close> with bit 7 set, and the clock samples \<open>ss\<close> stay within 1000 ms
  of the start \<open>s0\<close> and hold a sample that ends the wait for each read of
  \<open>pre\<close>, \<^verbatim>\<open>readTempOneShot\<close> returns the decoded temperature bytes \<open>m\<close>, \<open>l\<close>,
  which is not \<open>-32768\<close>.
\<close>

theorem readTempOneShot_timeout_and_success:
  "(never_done w \<and> clock w = t0 # ts @ tn # rest
      \<and> (\<forall>t \<in> set ts. \<not> 1000 <s t - t0) \<and> 1000 <s tn - t0
    \<longrightarrow> (\<exists>w'. readTempOneShot w = Some (- 32768, w') \<and> clock w' = rest))
   \<and> (replies v = pre @ (c # bs) # (m # l # bs') # post
      \<and> list_all (quiet (stale v)) pre \<and> bit c 7
      \<and> clock v = s0 # ss @ later \<and> (\<forall>s \<in> set ss. \<not> 1000 <s s - s0)
      \<and> length pre \<le> length (filter (due s0) ss)
    \<longrightarrow> (\<exists>T w'. readTempOneShot v = Some (T, w')
           \<and> T = of_int (whole m) + of_int (uint l div 16) * 0.0625
           \<and> T \<noteq> - 32768))"
proof (intro conjI impI)
  assume a: "never_done w \<and> clock w = t0 # ts @ tn # rest
      \<and> (\<forall>t \<in> set ts. \<not> 1000 <s t - t0) \<and> 1000 <s tn - t0"
  let ?w1 = "w\<lparr>clock := ts @ tn # rest, trace := trace w @ [Sample t0]\<rparr>"
  let ?w2 = "startConversion ?w1"
  from a have m: "millis w = Some (t0, ?w1)" by (simp add: millis_Cons)
  from a have "never_done ?w2" by (simp add: never_done_def startConversion_frame)
  moreover have "clock ?w2 = ts @ tn # rest" by (simp add: startConversion_frame)
  ultimately obtain w' where "pollLoop t0 ?w2 = Some (TimedOut, w')" "clock w' = rest"
    using pollLoop_times_out [of ?w2 ts tn rest t0] a by blast
  with m show "\<exists>w'. readTempOneShot w = Some (- 32768, w') \<and> clock w' = rest"
    by (simp add: readTempOneShot_def)
next
  assume a: "replies v = pre @ (c # bs) # (m # l # bs') # post
      \<and> list_all (quiet (stale v)) pre \<and> bit c 7
      \<and> clock v = s0 # ss @ later \<and> (\<forall>s \<in> set ss. \<not> 1000 <s s - s0)
      \<and> length pre \<le> length (filter (due s0) ss)"
  let ?w1 = "v\<lparr>clock := ss @ later, trace := trace v @ [Sample s0]\<rparr>"
  let ?w2 = "startConversion ?w1"
  from a have ml: "millis v = Some (s0, ?w1)" by (simp add: millis_Cons)
  have "replies ?w2 = pre @ (c # bs) # (m # l # bs') # post" "list_all (quiet (stale ?w2)) pre"
    "clock ?w2 = ss @ later"
    using a by (simp_all add: startConversion_frame)
  from pollLoop_done [OF this(1,2) _ this(3), of s0] a
  obtain w3 where p: "pollLoop s0 ?w2 = Some (Done, w3)" "replies w3 = (m # l # bs') # post"
    by blast
  from readT_bytes [OF p(2)] have "MSByte (readT w3) = m" "LSByte (readT w3) = l" by simp_all
  then have T: "fst (readTempF w3) = of_int (whole m) + of_int (uint l div 16) * 0.0625"
    by (simp add: readTempF_def byteToFloat_fst whole_def)
  have "fst (readTempF w3) \<noteq> - 32768" by (simp add: readTempF_def decoded_not_sentinel)
  with T ml p(1)
  show "\<exists>T w'. readTempOneShot v = Some (T, w')
           \<and> T = of_int (whole m) + of_int (uint l div 16) * 0.0625 \<and> T \<noteq> - 32768"
    by (simp add: readTempOneShot_def split_beta)
qed

theorem readTempOneShot_timeout_and_success_witness:
  "never_done (boot 0 [] [0, 10, 60, 500, 1000, 1001, 7])
   \<and> map_option fst (readTempOneShot (boot 0 [] [0, 10, 60, 500, 1000, 1001, 7])) = Some (- 32768)
   \<and> map_option (clock \<circ> snd) (readTempOneShot (boot 0 [] [0, 10, 60, 500, 1000, 1001, 7])) = Some [7]
   \<and> bit (0x8C :: byte) 7
   \<and> map_option fst
        (readTempOneShot (boot 0 [[0x0C], [0x0C], [0x8C], [0xFF, 0x80]] [0, 20, 50, 900, 950]))
       = Some (- 0.5)"
proof -
  let ?A = "boot 0 [] [0, 10, 60, 500, 1000, 1001, 7]"
  let ?B = "boot 0 [[0x0C], [0x0C], [0x8C], [0xFF, 0x80]] [0, 20, 50, 900, 950]"
  have a1: "never_done ?A" by (simp add: never_done_def boot_def DS1631_def)
  have a2: "clock ?A = 0 # [10, 60, 500, 1000] @ 1001 # [7]" by (simp add: boot_def DS1631_def)
  have a3: "\<forall>t \<in> set [10, 60, 500, 1000 :: 32 word]. \<not> 1000 <s t - 0"
    by (simp add: word_sless_alt)
  have a4: "1000 <s (1001 :: 32 word) - 0" by (simp add: word_sless_alt)
  from readTempOneShot_timeout_and_success
    [where w = ?A and ?t0.0 = 0 and ts = "[10, 60, 500, 1000]" and tn = 1001 and rest = "[7]"]
    a1 a2 a3 a4
  obtain w' where A: "readTempOneShot ?A = Some (- 32768, w')" "clock w' = [7]" by blast
  have b1: "replies ?B = [[0x0C], [0x0C]] @ (0x8C # []) # (0xFF # 0x80 # []) # []"
    by (simp add: boot_def DS1631_def)
  have b2: "list_all (quiet (stale ?B)) [[0x0C], [0x0C]]" by (simp add: quiet_def boot_def DS1631_def)
  have b3: "bit (0x8C :: byte) 7" by simp
  have b4: "clock ?B = 0 # [20, 50, 900] @ [950]" by (simp add: boot_def DS1631_def)
  have b5: "\<forall>t \<in> set [20, 50, 900 :: 32 word]. \<not> 1000 <s t - 0"
    by (simp add: word_sless_alt)
  have b6: "length [[0x0C], [0x0C :: byte]] \<le> length (filter (due 0) [20, 50, 900])"
    by (simp add: due_def word_sless_alt)
  from readTempOneShot_timeout_and_success
    [where v = ?B and ?s0.0 = 0 and ss = "[20, 50, 900]" and later = "[950]"
       and pre = "[[0x0C], [0x0C]]" and c = "0x8C" and bs = "[]" and m = "0xFF" and l = "0x80"
       and bs' = "[]" and post = "[]"]
    b1 b2 b3 b4 b5 b6
  obtain T w'' where B: "readTempOneShot ?B = Some (T, w'')"
    "T = of_int (whole 0xFF) + of_int (uint (0x80 :: byte) div 16) * 0.0625" by blast
  from B(2) have "T = - 0.5" by (simp add: whole_def)
  with A B(1) a1 b3 show ?thesis by simp
qed

lemma word_0x80_0x00: "word 0x80 0x00 = 0x8000"
  by (simp add: word_def)

text \<open>
  C10. \<^verbatim>\<open>readTempOneShotInt\<close> returns \<^verbatim>\<open>0x8000\<close> (32768, which is \<open>-32768\<close> modulo
  \<open>2 ^ 16\<close>) when the poll times out, and returns the same \<^verbatim>\<open>0x8000\<close> when the
  poll succeeds and the device delivers the temperature bytes \<^verbatim>\<open>0x80\<close>, \<^verbatim>\<open>0x00\<close>.
\<close>

theorem readTempOneShotInt_sentinel_collides:
  "(never_done w \<and> clock w = t0 # ts @ tn # rest
      \<and> (\<forall>t \<in> set ts. \<not> 1000 <s t - t0) \<and> 1000 <s tn - t0
    \<longrightarrow> map_option fst (readTempOneShotInt w) = Some 0x8000)
   \<and> (replies v = pre @ (c # bs) # (0x80 # 0x00 # bs') # post
      \<and> list_all (quiet (stale v)) pre \<and> bit c 7
      \<and> clock v = s0 # ss @ later \<and> (\<forall>s \<in> set ss. \<not> 1000 <s s - s0)
      \<and> length pre \<le> length (filter (due s0) ss)
    \<longrightarrow> map_option fst (readTempOneShotInt v) = Some 0x8000)
   \<and> uint (0x8000 :: 16 word) = (- 32768) mod 2 ^ 16"
proof (intro conjI impI)
  assume a: "never_done w \<and> clock w = t0 # ts @ tn # rest
      \<and> (\<forall>t \<in> set ts. \<not> 1000 <s t - t0) \<and> 1000 <s tn - t0"
  let ?w1 = "w\<lparr>clock := ts @ tn # rest, trace := trace w @ [Sample t0]\<rparr>"
  let ?w2 = "startConversion ?w1"
  from a have m: "millis w = Some (t0, ?w1)" by (simp add: millis_Cons)
  from a have "never_done ?w2" by (simp add: never_done_def startConversion_frame)
  moreover have "clock ?w2 = ts @ tn # rest" by (simp add: startConversion_frame)
  ultimately obtain w' where "pollLoop t0 ?w2 = Some (TimedOut, w')"
    using pollLoop_times_out [of ?w2 ts tn rest t0] a by blast
  with m show "map_option fst (readTempOneShotInt w) = Some 0x8000"
    by (simp add: readTempOneShotInt_def)
next
  assume a: "replies v = pre @ (c # bs) # (0x80 # 0x00 # bs') # post
      \<and> list_all (quiet (stale v)) pre \<and> bit c 7
      \<and> clock v = s0 # ss @ later \<and> (\<forall>s \<in> set ss. \<not> 1000 <s s - s0)
      \<and> length pre \<le> length (filter (due s0) ss)"
  let ?w1 = "v\<lparr>clock := ss @ later, trace := trace v @ [Sample s0]\<rparr>"
  let ?w2 = "startConversion ?w1"
  from a have ml: "millis v = Some (s0, ?w1)" by (simp add: millis_Cons)
  have "replies ?w2 = pre @ (c # bs) # (0x80 # 0x00 # bs') # post"
    "list_all (quiet (stale ?w2)) pre" "clock ?w2 = ss @ later"
    using a by (simp_all add: startConversion_frame)
  from pollLoop_done [OF this(1,2) _ this(3), of s0] a
  obtain w3 where p: "pollLoop s0 ?w2 = Some (Done, w3)"
    "replies w3 = (0x80 # 0x00 # bs') # post"
    by blast
  from readT_bytes [OF p(2)] have "MSByte (readT w3) = 0x80" "LSByte (readT w3) = 0x00"
    by simp_all
  with ml p(1) show "map_option fst (readTempOneShotInt v) = Some 0x8000"
    by (simp add: readTempOneShotInt_def Let_def word_0x80_0x00)
next
  show "uint (0x8000 :: 16 word) = (- 32768) mod 2 ^ 16" by simp
qed

theorem readTempOneShotInt_sentinel_collides_witness:
  "never_done (boot 0 [] [0, 10, 60, 500, 1000, 1001, 7])
   \<and> map_option fst (readTempOneShotInt (boot 0 [] [0, 10, 60, 500, 1000, 1001, 7])) = Some 0x8000
   \<and> bit (0x8C :: byte) 7
   \<and> map_option fst
        (readTempOneShotInt (boot 0 [[0x0C], [0x0C], [0x8C], [0x80, 0x00]] [0, 20, 50, 900, 950]))
       = Some 0x8000"
proof -
  let ?A = "boot 0 [] [0, 10, 60, 500, 1000, 1001, 7]"
  let ?B = "boot 0 [[0x0C], [0x0C], [0x8C], [0x80, 0x00]] [0, 20, 50, 900, 950]"
  have a1: "never_done ?A" by (simp add: never_done_def boot_def DS1631_def)
  have a2: "clock ?A = 0 # [10, 60, 500, 1000] @ 1001 # [7]" by (simp add: boot_def DS1631_def)
  have a3: "\<forall>t \<in> set [10, 60, 500, 1000 :: 32 word]. \<not> 1000 <s t - 0"
    by (simp add: word_sless_alt)
  have a4: "1000 <s (1001 :: 32 word) - 0" by (simp add: word_sless_alt)
  from readTempOneShotInt_sentinel_collides
    [where w = ?A and ?t0.0 = 0 and ts = "[10, 60, 500, 1000]" and tn = 1001 and rest = "[7]"]
    a1 a2 a3 a4
  have A: "map_option fst (readTempOneShotInt ?A) = Some 0x8000" by blast
  have b1: "replies ?B = [[0x0C], [0x0C]] @ (0x8C # []) # (0x80 # 0x00 # []) # []"
    by (simp add: boot_def DS1631_def)
  have b2: "list_all (quiet (stale ?B)) [[0x0C], [0x0C]]" by (simp add: quiet_def boot_def DS1631_def)
  have b3: "bit (0x8C :: byte) 7" by simp
  have b4: "clock ?B = 0 # [20, 50, 900] @ [950]" by (simp add: boot_def DS1631_def)
  have b5: "\<forall>t \<in> set [20, 50, 900 :: 32 word]. \<not> 1000 <s t - 0"
    by (simp add: word_sless_alt)
  have b6: "length [[0x0C], [0x0C :: byte]] \<le> length (filter (due 0) [20, 50, 900])"
    by (simp add: due_def word_sless_alt)
  from readTempOneShotInt_sentinel_collides
    [where v = ?B and ?s0.0 = 0 and ss = "[20, 50, 900]" and later = "[950]"
       and pre = "[[0x0C], [0x0C]]" and c = "0x8C" and bs = "[]" and bs' = "[]" and post = "[]"]
    b1 b2 b3 b4 b5 b6
  have B: "map_option fst (readTempOneShotInt ?B) = Some 0x8000" by blast
  from A B a1 b3 show ?thesis by simp
qed

subsection \<open>The pause between two polls\<close>

text \<open>
  Once a sample has ended the first wait, \<^verbatim>\<open>lastMillis\<close> is still the start of
  the poll, so every later wait ends with the first sample it takes.
\<close>

lemma spin_single_sample:
  "clock w = t # rest \<Longrightarrow> \<not> t - t0 <s 50 \<Longrightarrow>
   spin t0 0 w = Some (t - t0, w\<lparr>clock := rest, trace := trace w @ [Sample t]\<rparr>)"
  by (simp add: spin.simps [of t0 0 w] zero_sless_50 millis_Cons spin.simps [of t0 "t - t0"])

text \<open>
  C8 on a device that reports the conversion done at the fourth read, with the
  clock at 0, 20, 40, 50, 51 and 52 ms. The first and second read of the
  configuration byte (\<^verbatim>\<open>Tx [0xAC]\<close>, \<^verbatim>\<open>Rq 1\<close>) are 50 ms apart. The second read
  lies between the samples 50 and 51, the third between 51 and 52, the fourth
  after 52: these reads follow each other within 2 ms, in \<^verbatim>\<open>readTempOneShot\<close>
  and in \<^verbatim>\<open>readTempOneShotInt\<close> alike.
\<close>

theorem poll_rereads_without_waiting:
  "map_option (trace \<circ> snd)
     (readTempOneShot (boot 0 [[0x0C], [0x0C], [0x0C], [0x8C], [0x19, 0x00]] [0, 20, 40, 50, 51, 52]))
   = Some [Sample 0, Tx 72 [0x51],
           Tx 72 [0xAC], Rq 72 1 [0x0C], Sample 20, Sample 40, Sample 50,
           Tx 72 [0xAC], Rq 72 1 [0x0C], Sample 51,
           Tx 72 [0xAC], Rq 72 1 [0x0C], Sample 52,
           Tx 72 [0xAC], Rq 72 1 [0x8C],
           Tx 72 [0xAA], Rq 72 2 [0x19, 0x00], Tx 72 [0x22]]
   \<and> map_option (trace \<circ> snd)
     (readTempOneShotInt (boot 0 [[0x0C], [0x0C], [0x0C], [0x8C], [0x19, 0x00]] [0, 20, 40, 50, 51, 52]))
   = Some [Sample 0, Tx 72 [0x51],
           Tx 72 [0xAC], Rq 72 1 [0x0C], Sample 20, Sample 40, Sample 50,
           Tx 72 [0xAC], Rq 72 1 [0x0C], Sample 51,
           Tx 72 [0xAC], Rq 72 1 [0x0C], Sample 52,
           Tx 72 [0xAC], Rq 72 1 [0x8C],
           Tx 72 [0xAA], Rq 72 2 [0x19, 0x00]]"
  by code_simp

end
